theory Spec2Isabelle
  imports Main "HOL-Library.Word"
begin

unbundle bit_operations_syntax

section \<open>Data model of \<open>metastr.hh\<close>\<close>

text \<open>
  Code units are unsigned machine integers: \<open>char8_t\<close>, \<open>char16_t\<close> and \<open>char32_t\<close>
  are 8, 16 and 32 bit words. (The header itself advises against plain \<open>char\<close> and
  \<open>wchar_t\<close>, whose signedness and width depend on the platform.)
\<close>

type_synonym u8 = "8 word"
type_synonym u16 = "16 word"
type_synonym u32 = "32 word"

text \<open>
  The ways an operation can end without a value. \<open>Terminated\<close> is
  \<open>fatal_error::terminate()\<close> (the \<open>[[noreturn]]\<close> trap of \<open>shutdown.hh\<close>: the process
  stops, nothing is returned). The two \<open>OutOfBounds\<close> values and \<open>PointerOutOfRange\<close> are
  the undefined behaviours the code can reach: an array read or write past the end, and
  forming a pointer before the start of an array. \<open>IllFormed\<close> is a call whose template
  instantiation the compiler rejects.
\<close>

datatype error = Terminated | ReadOutOfBounds | WriteOutOfBounds | PointerOutOfRange | IllFormed

text \<open>
  \<open>struct metastr { Char str[N]{}; }\<close>: the buffer is the only data member, and the
  declared length \<open>N\<close> (\<open>len\<close>) is the length of the array.
\<close>

record 'a metastr =
  str :: "'a list"

definition len :: "'a metastr \<Rightarrow> nat" where
  "len m = length (str m)"

text \<open>
  The constructor \<open>metastr(Char const (&arr)[N])\<close>: \<open>str\<close> is zero-initialised and
  \<open>std::copy(arr, arr + N - 1, str)\<close> overwrites its first \<open>N - 1\<close> slots.
\<close>

definition metastr_of :: "'a::zero list \<Rightarrow> 'a metastr" where
  "metastr_of arr =
     \<lparr>str = take (length arr - 1) arr @ drop (length arr - 1) (replicate (length arr) 0)\<rparr>"

text \<open>
  What every metastring built by the constructor satisfies: at least one slot, and the
  last slot (the terminator) is zero.
\<close>

definition wf_metastr :: "'a::zero metastr \<Rightarrow> bool" where
  "wf_metastr m = (str m \<noteq> [] \<and> last (str m) = 0)"

section \<open>Equality\<close>

text \<open>
  \<open>std::equal(first1, first1 + n, first2)\<close> on code units of possibly different widths:
  \<open>==\<close> compares the promoted (zero-extended) values.
\<close>

definition units_equal :: "'a::len word list \<Rightarrow> 'b::len word list \<Rightarrow> nat \<Rightarrow> bool" where
  "units_equal xs ys n = list_all (\<lambda>i. unat (xs ! i) = unat (ys ! i)) [0..<n]"

text \<open>The loop \<open>for (i = lo; i < hi; ++i) if (xs[i] != '\0') return false;\<close>\<close>

definition units_zero :: "'a::len word list \<Rightarrow> nat \<Rightarrow> nat \<Rightarrow> bool" where
  "units_zero xs lo hi = list_all (\<lambda>i. xs ! i = 0) [lo..<hi]"

text \<open>
  \<open>operator==(Char_r const (&other)[N_r])\<close>. The range handed to \<open>std::equal\<close> ends at
  \<open>str + N - 2\<close> (respectively \<open>other + N_r - 2\<close>), which lies before the array when the
  shorter side has a single slot.
\<close>

definition eq_array :: "'a::len word metastr \<Rightarrow> 'b::len word list \<Rightarrow> error + bool" where
  "eq_array this other =
     (let N = len this; N_r = length other in
      if N \<le> N_r then
        (if N < 2 then Inl PointerOutOfRange
         else if \<not> units_equal (str this) other (N - 2) then Inr False
         else Inr (units_zero other (N - 1) N_r))
      else
        (if N_r < 2 then Inl PointerOutOfRange
         else if \<not> units_equal other (str this) (N_r - 2) then Inr False
         else Inr (units_zero (str this) (N_r - 1) N)))"

text \<open>\<open>operator==(metastr<Char_r, N_r> const& other)\<close> is \<open>*this == other.str\<close>.\<close>

definition eq_metastr :: "'a::len word metastr \<Rightarrow> 'b::len word metastr \<Rightarrow> error + bool" where
  "eq_metastr this other = eq_array this (str other)"

text \<open>
  \<open>operator==(std::basic_string_view<Char_r> const& other)\<close>; \<open>other\<close> is the view's
  \<open>size()\<close> code units (a view has no terminator slot).
\<close>

definition eq_string_view :: "'a::len word metastr \<Rightarrow> 'b::len word list \<Rightarrow> error + bool" where
  "eq_string_view this other =
     (let N = len this; sz = length other in
      if N \<le> sz then
        (if N < 2 then Inl PointerOutOfRange
         else if \<not> units_equal (str this) other (N - 2) then Inr False
         else Inr (units_zero other (N - 1) sz))
      else
        (if sz < 1 then Inl PointerOutOfRange
         else if \<not> units_equal other (str this) (sz - 1) then Inr False
         else Inr (units_zero (str this) sz N)))"

text \<open>
  The rule of the specification, in its words: the shorter side's first \<open>length - 1\<close>
  code units equal the longer side's, and every code unit of the longer side beyond
  that prefix is zero.
\<close>

definition spec_equal :: "'a::len word list \<Rightarrow> 'b::len word list \<Rightarrow> bool" where
  "spec_equal a b =
     (if length a \<le> length b
      then units_equal a b (length a - 1) \<and> units_zero b (length a - 1) (length b)
      else units_equal b a (length b - 1) \<and> units_zero a (length b - 1) (length a))"

section \<open>Transcoding\<close>

text \<open>
  The \<open>char16_t\<close> constants are only ever compared with 32-bit values, so they are
  given at that width.
\<close>

definition LEAD_SURROGATE_MIN :: u32 where "LEAD_SURROGATE_MIN = 0xd800"
definition LEAD_SURROGATE_MAX :: u32 where "LEAD_SURROGATE_MAX = 0xdbff"
definition TRAIL_SURROGATE_MIN :: u32 where "TRAIL_SURROGATE_MIN = 0xdc00"
definition TRAIL_SURROGATE_MAX :: u32 where "TRAIL_SURROGATE_MAX = 0xdfff"
definition SURROGATE_OFFSET :: u32 where "SURROGATE_OFFSET = 0xfca02400"
definition CODE_POINT_MAX :: u32 where "CODE_POINT_MAX = 0x0010ffff"

text \<open>
  The \<open>if\<close> chain that ends both transcoders (lines 195-209 and 251-265, the same
  text): the code units written for one scalar, in the order of the assignments
  \<open>res.str[index++] = static_cast<u8_type>(...)\<close>.
\<close>

definition utf8_units :: "u32 \<Rightarrow> u8 list" where
  "utf8_units u32chr =
     (if u32chr < 0x80 then [ucast u32chr]
      else if u32chr < 0x800 then
        [ucast (drop_bit 6 u32chr OR 0xc0), ucast ((u32chr AND 0x3f) OR 0x80)]
      else if u32chr < 0x10000 then
        [ucast (drop_bit 12 u32chr OR 0xe0), ucast ((drop_bit 6 u32chr AND 0x3f) OR 0x80),
         ucast ((u32chr AND 0x3f) OR 0x80)]
      else
        [ucast (drop_bit 18 u32chr OR 0xf0), ucast ((drop_bit 12 u32chr AND 0x3f) OR 0x80),
         ucast (drop_bit 6 u32chr AND 0x3f), ucast ((u32chr AND 0x3f) OR 0x80)])"

text \<open>
  The emission rule of the specification, in its words: the leading code unit carries
  the length in its high bits \<open>0xC0\<close>, \<open>0xE0\<close>, \<open>0xF0\<close>, and every continuation code unit
  is \<open>0x80\<close> with the next six payload bits.
\<close>

definition spec_utf8_units :: "u32 \<Rightarrow> u8 list" where
  "spec_utf8_units u =
     (if u < 0x80 then [ucast u]
      else if u < 0x800 then
        [ucast (drop_bit 6 u) OR 0xc0, ucast (u AND 0x3f) OR 0x80]
      else if u < 0x10000 then
        [ucast (drop_bit 12 u) OR 0xe0, ucast (drop_bit 6 u AND 0x3f) OR 0x80,
         ucast (u AND 0x3f) OR 0x80]
      else
        [ucast (drop_bit 18 u) OR 0xf0, ucast (drop_bit 12 u AND 0x3f) OR 0x80,
         ucast (drop_bit 6 u AND 0x3f) OR 0x80, ucast (u AND 0x3f) OR 0x80])"

text \<open>
  The assignments \<open>buf[index++] = v\<close> for a run of values, and equally
  \<open>std::copy(first, last, buf + index)\<close>: a write at or past \<open>length buf\<close> leaves the
  array.
\<close>

fun store_units :: "'a list \<Rightarrow> nat \<Rightarrow> 'a list \<Rightarrow> error + ('a list \<times> nat)" where
  "store_units buf index [] = Inr (buf, index)"
| "store_units buf index (v # vs) =
     (if index < length buf then store_units (buf[index := v]) (Suc index) vs
      else Inl WriteOutOfBounds)"

text \<open>
  The loop of \<open>utf32to8\<close> over the remaining input; \<open>chk\<close> is the checked build
  (\<open>NDEBUG\<close> not defined).
\<close>

fun utf32_loop :: "bool \<Rightarrow> u32 list \<Rightarrow> u8 list \<Rightarrow> nat \<Rightarrow> error + (u8 list \<times> nat)" where
  "utf32_loop chk [] buf index = Inr (buf, index)"
| "utf32_loop chk (u32chr # rest) buf index =
     (if chk \<and> (u32chr > CODE_POINT_MAX
                \<or> u32chr \<ge> LEAD_SURROGATE_MIN \<and> u32chr \<le> TRAIL_SURROGATE_MAX)
      then Inl Terminated
      else case store_units buf index (utf8_units u32chr) of
             Inl e \<Rightarrow> Inl e
           | Inr (buf', index') \<Rightarrow> utf32_loop chk rest buf' index')"

text \<open>
  \<open>utf32to8\<close>: the result starts as \<open>N * 4 - 3\<close> zero code units; \<open>utf32_run\<close> also keeps
  the final value of \<open>index\<close>.
\<close>

definition utf32_run :: "bool \<Rightarrow> u32 metastr \<Rightarrow> error + (u8 list \<times> nat)" where
  "utf32_run chk u32str = utf32_loop chk (str u32str) (replicate (len u32str * 4 - 3) 0) 0"

definition utf32to8 :: "bool \<Rightarrow> u32 metastr \<Rightarrow> error + u8 metastr" where
  "utf32to8 chk u32str =
     (case utf32_run chk u32str of Inl e \<Rightarrow> Inl e | Inr (buf, index) \<Rightarrow> Inr \<lparr>str = buf\<rparr>)"

text \<open>
  The loop of \<open>utf16to8\<close>, \<open>for (i = 0; i < N;)\<close>, over the input from position \<open>i\<close> on.
  In the unchecked build nothing stops the read of \<open>u16str.str[i++]\<close> after a lead
  surrogate in the last slot.
\<close>

fun utf16_loop :: "bool \<Rightarrow> u16 list \<Rightarrow> u8 list \<Rightarrow> nat \<Rightarrow> error + (u8 list \<times> nat)" where
  "utf16_loop chk [] buf index = Inr (buf, index)"
| "utf16_loop chk (unit # rest) buf index =
     (let u32chr = (ucast (unit AND 0xffff) :: u32) in
      if chk \<and> u32chr \<ge> TRAIL_SURROGATE_MIN \<and> u32chr \<le> TRAIL_SURROGATE_MAX
      then Inl Terminated
      else if u32chr \<ge> LEAD_SURROGATE_MIN \<and> u32chr \<le> LEAD_SURROGATE_MAX then
        (case rest of
           [] \<Rightarrow> if chk then Inl Terminated else Inl ReadOutOfBounds
         | unit' # rest' \<Rightarrow>
             (let trail_surrogate = (ucast (unit' AND 0xffff) :: u32) in
              if chk \<and> (trail_surrogate < TRAIL_SURROGATE_MIN
                         \<or> trail_surrogate > TRAIL_SURROGATE_MAX)
              then Inl Terminated
              else case store_units buf index
                          (utf8_units (push_bit 10 u32chr + trail_surrogate + SURROGATE_OFFSET)) of
                     Inl e \<Rightarrow> Inl e
                   | Inr (buf', index') \<Rightarrow> utf16_loop chk rest' buf' index'))
      else case store_units buf index (utf8_units u32chr) of
             Inl e \<Rightarrow> Inl e
           | Inr (buf', index') \<Rightarrow> utf16_loop chk rest buf' index')"

definition utf16_run :: "bool \<Rightarrow> u16 metastr \<Rightarrow> error + (u8 list \<times> nat)" where
  "utf16_run chk u16str = utf16_loop chk (str u16str) (replicate (4 * len u16str - 3) 0) 0"

definition utf16to8 :: "bool \<Rightarrow> u16 metastr \<Rightarrow> error + u8 metastr" where
  "utf16to8 chk u16str =
     (case utf16_run chk u16str of Inl e \<Rightarrow> Inl e | Inr (buf, index) \<Rightarrow> Inr \<lparr>str = buf\<rparr>)"

text \<open>
  \<open>code_cvt\<close> chooses its branch by the two character types, at compile time; each
  branch is a function of its own here. The same-family branch fills a zeroed
  \<open>Char_r tmp_[N]\<close> with the first \<open>N - 1\<close> code units and constructs the result from it.
\<close>

definition code_cvt_same :: "'a::zero metastr \<Rightarrow> 'a metastr" where
  "code_cvt_same s =
     metastr_of (take (len s - 1) (str s) @ drop (len s - 1) (replicate (len s) 0))"

definition code_cvt_32to8 :: "bool \<Rightarrow> u32 metastr \<Rightarrow> error + u8 metastr" where
  "code_cvt_32to8 chk s = utf32to8 chk s"

definition code_cvt_16to8 :: "bool \<Rightarrow> u16 metastr \<Rightarrow> error + u8 metastr" where
  "code_cvt_16to8 chk s = utf16to8 chk s"

section \<open>Concatenation\<close>

text \<open>
  The comma fold of \<open>concat\<close>, one step per element of the pack \<open>strs\<close>:
  \<open>offset += lens[index++]\<close>, then \<open>std::copy(strs.str, strs.str + Strs::len - 1,
  res.str + offset)\<close>.
\<close>

fun concat_copy ::
  "'a metastr list \<Rightarrow> nat list \<Rightarrow> 'a list \<Rightarrow> nat \<Rightarrow> nat \<Rightarrow> error + 'a list" where
  "concat_copy [] lens buf index offset = Inr buf"
| "concat_copy (s # strs) lens buf index offset =
     (case store_units buf (offset + lens ! index) (take (len s - 1) (str s)) of
        Inl e \<Rightarrow> Inl e
      | Inr (buf', _) \<Rightarrow> concat_copy strs lens buf' (Suc index) (offset + lens ! index))"

text \<open>
  \<open>concat(Str1 const& str1, Strs const&... strs)\<close> on the argument list \<open>str1 # strs\<close>.
  The array bound \<open>Str1::len + (Strs::len + ...) - sizeof...(Strs)\<close> folds the pack with
  \<open>+\<close>; a unary fold over an empty pack is ill-formed for every operator but \<open>&&\<close>,
  \<open>||\<close> and the comma, so the call with a single argument does not compile.
\<close>

definition concat_metastr :: "'a::zero metastr list \<Rightarrow> error + 'a metastr" where
  "concat_metastr args =
     (case args of
        [] \<Rightarrow> Inl IllFormed
      | [str1] \<Rightarrow> Inl IllFormed
      | str1 # strs \<Rightarrow>
          (let res = replicate (len str1 + sum_list (map len strs) - length strs) 0;
               lens = (len str1 - 1) # map (\<lambda>s. len s - 1) strs
           in case store_units res 0 (take (len str1 - 1) (str str1)) of
                Inl e \<Rightarrow> Inl e
              | Inr (res', _) \<Rightarrow>
                  (case concat_copy strs lens res' 0 0 of
                     Inl e \<Rightarrow> Inl e
                   | Inr buf \<Rightarrow> Inr \<lparr>str = buf\<rparr>)))"

text \<open>
  The overload \<open>concat(T const&... strs)\<close> for a mix of raw literals and metastrings:
  each literal is wrapped by the constructor, a metastring is passed as it is.
\<close>

datatype 'a concat_arg = Literal "'a list" | Metastring "'a metastr"

fun wrap_arg :: "'a::zero concat_arg \<Rightarrow> 'a metastr" where
  "wrap_arg (Literal arr) = metastr_of arr"
| "wrap_arg (Metastring m) = m"

definition concat_wrap :: "'a::zero concat_arg list \<Rightarrow> error + 'a metastr" where
  "concat_wrap args = concat_metastr (map wrap_arg args)"

text \<open>
  The contract of the specification, in its words, for one or more inputs: each input's
  content without its terminator slot, left to right, then one zero terminator slot.
\<close>

definition spec_concat :: "'a::zero metastr list \<Rightarrow> 'a metastr" where
  "spec_concat args = \<lparr>str = concat (map (\<lambda>s. take (len s - 1) (str s)) args) @ [0]\<rparr>"

section \<open>Facts about the building blocks\<close>

lemmas transcoding_consts =
  LEAD_SURROGATE_MIN_def LEAD_SURROGATE_MAX_def TRAIL_SURROGATE_MIN_def
  TRAIL_SURROGATE_MAX_def SURROGATE_OFFSET_def CODE_POINT_MAX_def

subsection \<open>Writing a run of code units\<close>

lemma store_units_fits:
  "index + length vs \<le> length buf \<Longrightarrow>
   store_units buf index vs =
     Inr (take index buf @ vs @ drop (index + length vs) buf, index + length vs)"
proof (induction vs arbitrary: buf index)
  case Nil
  then show ?case by simp
next
  case (Cons v vs)
  then have lt: "index < length buf" by simp
  have fits: "Suc index + length vs \<le> length (buf[index := v])"
    using Cons.prems by simp
  have "take (Suc index) (buf[index := v]) = take index buf @ [v]"
    using lt by (simp add: take_Suc_conv_app_nth)
  moreover have "drop (Suc index + length vs) (buf[index := v]) = drop (Suc index + length vs) buf"
    by simp
  ultimately show ?case
    using lt Cons.IH [OF fits] by simp
qed

lemma store_units_overflow:
  "vs \<noteq> [] \<Longrightarrow> length buf < index + length vs \<Longrightarrow>
   store_units buf index vs = Inl WriteOutOfBounds"
proof (induction vs arbitrary: buf index)
  case Nil
  then show ?case by simp
next
  case (Cons v vs)
  show ?case
  proof (cases "index < length buf")
    case False
    then show ?thesis by simp
  next
    case True
    with Cons.prems have "vs \<noteq> []" by auto
    moreover have "length (buf[index := v]) < Suc index + length vs"
      using Cons.prems by simp
    ultimately show ?thesis using True Cons.IH by simp
  qed
qed

lemma utf8_units_length: "length (utf8_units c) \<le> 4"
  by (simp add: utf8_units_def)

lemma utf8_units_nonempty: "utf8_units c \<noteq> []"
  by (simp add: utf8_units_def)

lemma utf8_units_zero: "utf8_units 0 = [0]"
  by (simp add: utf8_units_def)

lemma store_utf8_units:
  "index + 4 \<le> length buf \<Longrightarrow>
   \<exists>b i. store_units buf index (utf8_units c) = Inr (b, i) \<and> length b = length buf
     \<and> index < i \<and> i \<le> index + 4"
proof -
  assume a: "index + 4 \<le> length buf"
  have l: "length (utf8_units c) \<le> 4" by (rule utf8_units_length)
  have n: "0 < length (utf8_units c)" using utf8_units_nonempty by simp
  have "index + length (utf8_units c) \<le> length buf" using a l by simp
  from store_units_fits [OF this] show ?thesis using l n a by simp
qed

subsection \<open>Code units as 32-bit values\<close>

lemma u16_and_ffff: "(unit :: u16) AND 0xffff = unit"
proof -
  have "(0xffff :: u16) = mask 16" by (simp add: mask_eq_exp_minus_1)
  then have "unit AND 0xffff = take_bit 16 unit" by (simp add: take_bit_eq_mask)
  then show ?thesis by (simp add: take_bit_word_eq_self)
qed

lemma ring_rearrange:
  "a * k + t + (c - d * k - e) = c + (a - d) * k + (t - e)" for a :: "'a::comm_ring"
  by (simp add: algebra_simps)

lemma surrogate_pair_scalar:
  "push_bit 10 (lead :: u32) + trail + SURROGATE_OFFSET
     = 0x10000 + (lead - 0xD800) * 0x400 + (trail - 0xDC00)"
proof -
  have c: "SURROGATE_OFFSET = 0x10000 - 0xD800 * 0x400 - 0xDC00"
    by (simp add: SURROGATE_OFFSET_def)
  have p: "push_bit 10 lead = lead * 0x400"
    by (simp add: push_bit_eq_mult)
  show ?thesis unfolding c p by (rule ring_rearrange)
qed

subsection \<open>The loop of \<open>utf32to8\<close>\<close>

lemma utf32_loop_bound:
  "cs \<noteq> [] \<Longrightarrow> last cs = 0 \<Longrightarrow> index + 4 * length cs \<le> length buf + 3 \<Longrightarrow>
   (case utf32_loop chk cs buf index of
      Inl e \<Rightarrow> chk \<and> e = Terminated
    | Inr (b, i) \<Rightarrow> length b = length buf \<and> i + 3 \<le> index + 4 * length cs)"
proof (induction cs arbitrary: buf index)
  case Nil
  then show ?case by simp
next
  case (Cons c rest)
  show ?case
  proof (cases "rest = []")
    case True
    with Cons.prems have c: "c = 0" and lt: "index < length buf" by simp_all
    show ?thesis
      using True lt by (simp add: c utf8_units_zero transcoding_consts)
  next
    case False
    with Cons.prems have fits: "index + 4 \<le> length buf"
      by (cases rest) simp_all
    from store_utf8_units [OF fits, of c] obtain b i where
      st: "store_units buf index (utf8_units c) = Inr (b, i)" and
      lb: "length b = length buf" and i: "i \<le> index + 4"
      by blast
    have pre: "i + 4 * length rest \<le> length b + 3"
      using Cons.prems(3) i lb by simp
    have lastr: "last rest = 0" using Cons.prems(2) False by simp
    from Cons.IH [OF False lastr pre] show ?thesis
      using st lb i by (auto split: sum.splits)
  qed
qed

lemma utf32_loop_rejects:
  "\<exists>c \<in> set cs. CODE_POINT_MAX < c \<or> LEAD_SURROGATE_MIN \<le> c \<and> c \<le> TRAIL_SURROGATE_MAX \<Longrightarrow>
   index + 4 * length cs \<le> length buf + 4 \<Longrightarrow>
   utf32_loop True cs buf index = Inl Terminated"
proof (induction cs arbitrary: buf index)
  case Nil
  then show ?case by simp
next
  case (Cons c rest)
  show ?case
  proof (cases "CODE_POINT_MAX < c \<or> LEAD_SURROGATE_MIN \<le> c \<and> c \<le> TRAIL_SURROGATE_MAX")
    case True
    then show ?thesis by auto
  next
    case False
    with Cons.prems(1) have ex:
      "\<exists>c \<in> set rest. CODE_POINT_MAX < c \<or> LEAD_SURROGATE_MIN \<le> c \<and> c \<le> TRAIL_SURROGATE_MAX"
      by auto
    then have "rest \<noteq> []" by auto
    with Cons.prems(2) have fits: "index + 4 \<le> length buf"
      by (cases rest) simp_all
    from store_utf8_units [OF fits, of c] obtain b i where
      st: "store_units buf index (utf8_units c) = Inr (b, i)" and
      lb: "length b = length buf" and i: "i \<le> index + 4"
      by blast
    have pre: "i + 4 * length rest \<le> length b + 4"
      using Cons.prems(2) i lb by simp
    from Cons.IH [OF ex pre] show ?thesis
      using False st by auto
  qed
qed

subsection \<open>The loop of \<open>utf16to8\<close>\<close>

lemma store_units_error: "store_units buf index vs = Inl e \<Longrightarrow> e = WriteOutOfBounds"
  by (induction vs arbitrary: buf index) (auto split: if_splits)

lemma utf16_loop_Cons:
  "utf16_loop chk (unit # rest) buf index =
     (if chk \<and> TRAIL_SURROGATE_MIN \<le> ucast unit \<and> (ucast unit :: u32) \<le> TRAIL_SURROGATE_MAX
      then Inl Terminated
      else if LEAD_SURROGATE_MIN \<le> ucast unit \<and> (ucast unit :: u32) \<le> LEAD_SURROGATE_MAX then
        (case rest of
           [] \<Rightarrow> if chk then Inl Terminated else Inl ReadOutOfBounds
         | unit' # rest' \<Rightarrow>
             if chk \<and> ((ucast unit' :: u32) < TRAIL_SURROGATE_MIN
                        \<or> TRAIL_SURROGATE_MAX < (ucast unit' :: u32))
             then Inl Terminated
             else case store_units buf index
                         (utf8_units (push_bit 10 (ucast unit) + ucast unit' + SURROGATE_OFFSET)) of
                    Inl e \<Rightarrow> Inl e
                  | Inr (buf', index') \<Rightarrow> utf16_loop chk rest' buf' index')
      else case store_units buf index (utf8_units (ucast unit)) of
             Inl e \<Rightarrow> Inl e
           | Inr (buf', index') \<Rightarrow> utf16_loop chk rest buf' index')"
  by (simp only: utf16_loop.simps Let_def u16_and_ffff)

lemma utf16_loop_checked_reads:
  "utf16_loop True cs buf index \<noteq> Inl ReadOutOfBounds"
proof (induction cs arbitrary: buf index rule: length_induct)
  case (1 cs)
  have step: "(case store_units buf index us of
                 Inl e \<Rightarrow> Inl e | Inr (b, i) \<Rightarrow> utf16_loop True r b i)
               \<noteq> Inl ReadOutOfBounds" if "length r < length cs" for us r
    using 1 that by (auto split: sum.splits dest: store_units_error)
  show ?case
  proof (cases cs)
    case Nil
    then show ?thesis by simp
  next
    case (Cons unit rest)
    show ?thesis
      using step unfolding Cons utf16_loop_Cons
      by (cases rest) simp_all
  qed
qed

lemma utf16_loop_bound:
  "cs \<noteq> [] \<Longrightarrow> last cs = 0 \<Longrightarrow> index + 4 * length cs \<le> length buf + 3 \<Longrightarrow>
   (case utf16_loop chk cs buf index of
      Inl e \<Rightarrow> chk \<and> e = Terminated
    | Inr (b, i) \<Rightarrow> length b = length buf \<and> i + 3 \<le> index + 4 * length cs)"
proof (induction cs arbitrary: buf index rule: length_induct)
  case (1 cs)
  note IH = 1(1) [rule_format]
  obtain unit rest where cs: "cs = unit # rest"
    using 1(2) by (cases cs) auto
  have cont:
    "(case (case store_units buf index (utf8_units c) of
              Inl e \<Rightarrow> Inl e | Inr (b, i) \<Rightarrow> utf16_loop chk r b i) of
        Inl e \<Rightarrow> chk \<and> e = Terminated
      | Inr (b, i) \<Rightarrow> length b = length buf \<and> i + 3 \<le> index + 4 * length cs)"
    if r: "length r < length cs" "rest \<noteq> []" "r = [] \<or> last r = 0" for c r
  proof -
    have "2 \<le> length cs" using cs r(2) by (cases rest) simp_all
    with 1(4) have fits: "index + 4 \<le> length buf" by simp
    from store_utf8_units [OF fits, of c] obtain b i where
      st: "store_units buf index (utf8_units c) = Inr (b, i)" and
      lb: "length b = length buf" and i: "i \<le> index + 4"
      by blast
    show ?thesis
    proof (cases "r = []")
      case True
      then show ?thesis using st lb i \<open>2 \<le> length cs\<close> by simp
    next
      case False
      with r(3) have lastr: "last r = 0" by simp
      have pre: "i + 4 * length r \<le> length b + 3"
        using 1(4) i lb r(1) by simp
      from IH [OF r(1) False lastr pre] show ?thesis
        using st lb i r(1) by (auto split: sum.splits)
    qed
  qed
  show ?case
  proof (cases rest)
    case Nil
    with cs 1(3) have unit: "unit = 0" by simp
    from Nil cs 1(4) have lt: "index < length buf" by simp
    show ?thesis
      unfolding cs Nil unit utf16_loop_Cons
      using lt by (simp add: utf8_units_zero transcoding_consts)
  next
    case (Cons unit' rest')
    have lastrest: "last rest = 0" using cs Cons 1(3) by simp
    have plain: "(case (case store_units buf index (utf8_units c) of
              Inl e \<Rightarrow> Inl e | Inr (b, i) \<Rightarrow> utf16_loop chk rest b i) of
        Inl e \<Rightarrow> chk \<and> e = Terminated
      | Inr (b, i) \<Rightarrow> length b = length buf \<and> i + 3 \<le> index + 4 * length cs)" for c
      using cont [of rest c] cs Cons lastrest by simp
    have pair: "(case (case store_units buf index (utf8_units c) of
              Inl e \<Rightarrow> Inl e | Inr (b, i) \<Rightarrow> utf16_loop chk rest' b i) of
        Inl e \<Rightarrow> chk \<and> e = Terminated
      | Inr (b, i) \<Rightarrow> length b = length buf \<and> i + 3 \<le> index + 4 * length cs)" for c
      using cont [of rest' c] cs Cons lastrest by (cases "rest' = []") simp_all
    show ?thesis
      using plain pair unfolding cs Cons utf16_loop_Cons
      by (simp del: utf16_loop.simps)
  qed
qed

lemma lead_not_trail:
  "(c :: u32) \<le> LEAD_SURROGATE_MAX \<Longrightarrow> \<not> TRAIL_SURROGATE_MIN \<le> c"
proof
  assume "c \<le> LEAD_SURROGATE_MAX" and "TRAIL_SURROGATE_MIN \<le> c"
  then have "TRAIL_SURROGATE_MIN \<le> LEAD_SURROGATE_MAX" by (rule order_trans [rotated])
  then show False by (simp add: transcoding_consts)
qed

lemma utf16_loop_lead_last:
  "cs \<noteq> [] \<Longrightarrow>
   LEAD_SURROGATE_MIN \<le> ucast (last cs) \<and> (ucast (last cs) :: u32) \<le> LEAD_SURROGATE_MAX \<Longrightarrow>
   index + 4 * length cs \<le> length buf + 4 \<Longrightarrow>
   utf16_loop True cs buf index = Inl Terminated"
proof (induction cs arbitrary: buf index rule: length_induct)
  case (1 cs)
  note IH = 1(1) [rule_format]
  obtain unit rest where cs: "cs = unit # rest"
    using 1(2) by (cases cs) auto
  have cont:
    "(case store_units buf index (utf8_units c) of
        Inl e \<Rightarrow> Inl e | Inr (b, i) \<Rightarrow> utf16_loop True r b i) = Inl Terminated"
    if r: "length r < length cs" "r \<noteq> []" "last r = last cs" for c r
  proof -
    have "2 \<le> length cs" using r(1,2) by (cases r) simp_all
    with 1(4) have fits: "index + 4 \<le> length buf" by simp
    from store_utf8_units [OF fits, of c] obtain b i where
      st: "store_units buf index (utf8_units c) = Inr (b, i)" and
      lb: "length b = length buf" and i: "i \<le> index + 4"
      by blast
    have lead: "LEAD_SURROGATE_MIN \<le> ucast (last r) \<and> (ucast (last r) :: u32) \<le> LEAD_SURROGATE_MAX"
      using 1(3) r(3) by simp
    have pre: "i + 4 * length r \<le> length b + 4"
      using 1(4) i lb r(1) by simp
    from IH [OF r(1) r(2) lead pre] show ?thesis
      using st by simp
  qed
  show ?case
  proof (cases rest)
    case Nil
    show ?thesis
      using 1(3) unfolding cs Nil utf16_loop_Cons by simp
  next
    case (Cons unit' rest')
    have plain: "(case store_units buf index (utf8_units c) of
        Inl e \<Rightarrow> Inl e | Inr (b, i) \<Rightarrow> utf16_loop True rest b i) = Inl Terminated" for c
      using cont [of rest c] cs Cons by simp
    show ?thesis
    proof (cases "rest' = []")
      case True
      have "\<not> TRAIL_SURROGATE_MIN \<le> (ucast unit' :: u32)"
        using 1(3) cs Cons True lead_not_trail by simp
      then have "(ucast unit' :: u32) < TRAIL_SURROGATE_MIN"
        by (simp add: not_le)
      then show ?thesis
        unfolding cs Cons utf16_loop_Cons [of _ unit] using plain [unfolded Cons]
        by (simp del: utf16_loop.simps)
    next
      case False
      have pair: "(case store_units buf index (utf8_units c) of
          Inl e \<Rightarrow> Inl e | Inr (b, i) \<Rightarrow> utf16_loop True rest' b i) = Inl Terminated" for c
        using cont [of rest' c] cs Cons False by simp
      show ?thesis
        unfolding cs Cons utf16_loop_Cons [of _ unit] using plain [unfolded Cons] pair
        by (simp del: utf16_loop.simps)
    qed
  qed
qed

subsection \<open>The copies of \<open>concat\<close>\<close>

lemma nth_of_drop: "drop i xs = y # ys \<Longrightarrow> xs ! i = y"
  by (metis nth_via_drop)

lemma drop_Suc_of_drop: "drop i xs = y # ys \<Longrightarrow> drop (Suc i) xs = ys"
  by (metis drop_Suc tl_drop list.sel(3))

lemma drop_append_replicate: "drop (length c + m) (c @ replicate (m + 1) x) = [x]"
proof -
  have "drop m (replicate (Suc m) x) = replicate (Suc m - m) x"
    by (rule drop_replicate)
  then show ?thesis by simp
qed

lemma concat_copy_eq:
  "drop index lens = n # map (\<lambda>s. len s - 1) strs \<Longrightarrow>
   offset + n + sum_list (map (\<lambda>s. len s - 1) strs) \<le> length buf \<Longrightarrow>
   concat_copy strs lens buf index offset =
     Inr (take (offset + n) buf @ concat (map (\<lambda>s. take (len s - 1) (str s)) strs)
          @ drop (offset + n + sum_list (map (\<lambda>s. len s - 1) strs)) buf)"
proof (induction strs arbitrary: buf index offset n)
  case Nil
  then show ?case by simp
next
  case (Cons s strs)
  let ?c = "take (len s - 1) (str s)"
  let ?m = "sum_list (map (\<lambda>s. len s - 1) strs)"
  have n: "lens ! index = n" using Cons.prems(1) by (simp add: nth_of_drop)
  have d: "drop (Suc index) lens = (len s - 1) # map (\<lambda>s. len s - 1) strs"
    using Cons.prems(1) by (simp add: drop_Suc_of_drop)
  have lc: "length ?c = len s - 1" by (simp add: len_def)
  have fits: "(offset + n) + length ?c \<le> length buf"
    using Cons.prems(2) lc by simp
  let ?buf' = "take (offset + n) buf @ ?c @ drop (offset + n + length ?c) buf"
  have st: "store_units buf (offset + n) ?c = Inr (?buf', offset + n + length ?c)"
    by (rule store_units_fits [OF fits])
  have lb: "length ?buf' = length buf" using fits by simp
  have pre: "(offset + n) + (len s - 1) + ?m \<le> length ?buf'"
    using Cons.prems(2) lb by simp
  have tk: "take (offset + n + (len s - 1)) ?buf' = take (offset + n) buf @ ?c"
    using fits lc by simp
  have dr: "drop (offset + n + (len s - 1) + ?m) ?buf' = drop (offset + n + (len s - 1) + ?m) buf"
    using fits lc by (simp add: ac_simps)
  have "concat_copy (s # strs) lens buf index offset = concat_copy strs lens ?buf' (Suc index) (offset + n)"
    using st n by simp
  also have "\<dots> = Inr (take (offset + n + (len s - 1)) ?buf'
       @ concat (map (\<lambda>s. take (len s - 1) (str s)) strs)
       @ drop (offset + n + (len s - 1) + ?m) ?buf')"
    by (rule Cons.IH [OF d pre])
  finally show ?case
    unfolding tk dr by (simp add: add.assoc)
qed

lemma concat_metastr_eq:
  assumes two: "2 \<le> length args" and ne: "\<forall>s \<in> set args. str s \<noteq> []"
  shows "concat_metastr args =
           Inr \<lparr>str = concat (map (\<lambda>s. take (len s - 1) (str s)) args) @ [0]\<rparr>"
proof -
  from two obtain str1 s2 strs' where args: "args = str1 # s2 # strs'"
    by (cases args; cases "tl args") auto
  define strs where "strs = s2 # strs'"
  let ?lg = "\<lambda>s. len s - 1"
  let ?m = "sum_list (map ?lg strs)"
  let ?c = "take (len str1 - 1) (str str1)"
  have pos: "\<forall>s \<in> set (str1 # strs). 1 \<le> len s"
    using ne args strs_def by (auto simp: len_def Suc_le_eq)
  have sum: "sum_list (map len ss) = sum_list (map ?lg ss) + length ss"
    if "\<forall>s \<in> set ss. 1 \<le> len s" for ss :: "'a metastr list"
    using that by (induction ss) auto
  have total: "len str1 + sum_list (map len strs) - length strs = (len str1 - 1) + ?m + 1"
    using pos sum [of strs] by simp
  let ?res = "replicate ((len str1 - 1) + ?m + 1) (0::'a)"
  have lc: "length ?c = len str1 - 1" by (simp add: len_def)
  have res: "?res = replicate (len str1 - 1) 0 @ replicate (?m + 1) 0"
    by (simp only: replicate_add add.assoc)
  have fits: "0 + length ?c \<le> length ?res" using lc by simp
  let ?res' = "?c @ replicate (?m + 1) (0::'a)"
  have "drop (0 + length ?c) ?res = replicate (?m + 1) 0"
    unfolding res lc by simp
  then have st: "store_units ?res 0 ?c = Inr (?res', length ?c)"
    using store_units_fits [OF fits] by simp
  have d: "drop 0 (?lg str1 # map ?lg strs) = ?lg str1 # map ?lg strs" by simp
  have pre: "0 + ?lg str1 + ?m \<le> length ?res'" using lc by simp
  have t1: "take (0 + ?lg str1) ?res' = ?c" using lc by simp
  have t2: "drop (0 + ?lg str1 + ?m) ?res' = [0]"
    using drop_append_replicate [of ?c ?m 0] lc by simp
  have cp: "concat_copy strs (?lg str1 # map ?lg strs) ?res' 0 0 =
      Inr (?c @ concat (map (\<lambda>s. take (len s - 1) (str s)) strs) @ [0])"
    using concat_copy_eq [OF d pre] unfolding t1 t2 .
  have "concat_metastr (str1 # strs) =
      Inr \<lparr>str = ?c @ concat (map (\<lambda>s. take (len s - 1) (str s)) strs) @ [0]\<rparr>"
    unfolding concat_metastr_def strs_def list.case Let_def total [unfolded strs_def]
    using st [unfolded strs_def] cp [unfolded strs_def] by simp
  then show ?thesis by (simp add: args strs_def)
qed

subsection \<open>Whole conversions\<close>

lemma drop_Cons_replicate: "drop n (x # replicate n x) = [x]"
proof -
  have "drop n (replicate (Suc n) x) = replicate (Suc n - n) x"
    by (rule drop_replicate)
  then show ?thesis by simp
qed

lemma wf_metastr_of: "arr \<noteq> [] \<Longrightarrow> wf_metastr (metastr_of arr)"
  by (cases arr rule: rev_cases) (simp_all add: wf_metastr_def metastr_of_def)

lemma utf8_units_third_unit:
  "0x10000 \<le> c \<Longrightarrow> utf8_units c ! 2 \<le> 0x3f"
proof -
  assume c: "0x10000 \<le> c"
  let ?y = "drop_bit 6 c AND 0x3f"
  have "?y \<le> 0x3f" by (rule word_and_le1)
  then have y: "unat ?y \<le> 63" by (simp add: word_le_nat_alt)
  have "unat (ucast ?y :: u8) = take_bit 8 (unat ?y)"
    by (simp add: unsigned_ucast_eq)
  also have "\<dots> = unat ?y"
    using y by (simp add: take_bit_nat_eq_self)
  finally have "(ucast ?y :: u8) \<le> 0x3f"
    using y by (simp add: word_le_nat_alt)
  moreover have "utf8_units c ! 2 = ucast ?y"
  proof -
    have "(0x800::u32) \<le> c" using c by (rule order_trans [rotated]) simp
    moreover have "(0x80::u32) \<le> c" using c by (rule order_trans [rotated]) simp
    ultimately show ?thesis
      using c by (simp add: utf8_units_def not_less [symmetric] del: not_less)
  qed
  ultimately show ?thesis by simp
qed

lemma utf32_run_bound:
  assumes "wf_metastr s"
  shows "case utf32_run chk s of
           Inl e \<Rightarrow> chk \<and> e = Terminated
         | Inr (buf, index) \<Rightarrow> length buf = 4 * len s - 3 \<and> index \<le> 4 * len s - 3"
proof -
  from assms have ne: "str s \<noteq> []" and z: "last (str s) = 0"
    by (simp_all add: wf_metastr_def)
  have pre: "0 + 4 * length (str s) \<le> length (replicate (len s * 4 - 3) (0::u8)) + 3"
    using ne by (cases "str s") (simp_all add: len_def)
  from utf32_loop_bound [OF ne z pre, of chk] show ?thesis
    by (auto simp: utf32_run_def len_def split: sum.splits)
qed

lemma utf16_run_bound:
  assumes "wf_metastr s"
  shows "case utf16_run chk s of
           Inl e \<Rightarrow> chk \<and> e = Terminated
         | Inr (buf, index) \<Rightarrow> length buf = 4 * len s - 3 \<and> index \<le> 4 * len s - 3"
proof -
  from assms have ne: "str s \<noteq> []" and z: "last (str s) = 0"
    by (simp_all add: wf_metastr_def)
  have pre: "0 + 4 * length (str s) \<le> length (replicate (4 * len s - 3) (0::u8)) + 3"
    using ne by (cases "str s") (simp_all add: len_def)
  from utf16_loop_bound [OF ne z pre, of chk] show ?thesis
    by (auto simp: utf16_run_def len_def split: sum.splits)
qed

lemma utf16to8_checked_reads: "utf16to8 True s \<noteq> Inl ReadOutOfBounds"
  using utf16_loop_checked_reads [of "str s" "replicate (4 * len s - 3) 0" 0]
  by (auto simp: utf16to8_def utf16_run_def split: sum.splits)

lemma code_cvt_same_wf:
  assumes "wf_metastr s"
  shows "str (code_cvt_same s) = str s"
proof -
  from assms obtain xs where s: "str s = xs @ [0]"
    by (cases "str s" rule: rev_cases) (auto simp: wf_metastr_def)
  show ?thesis
    by (simp add: code_cvt_same_def metastr_of_def len_def s drop_Cons_replicate)
qed

subsection \<open>Positions inside a concatenation\<close>

lemma nth_concat_offset:
  "j < length xss \<Longrightarrow> t < length (xss ! j) \<Longrightarrow>
   concat xss ! (sum_list (map length (take j xss)) + t) = xss ! j ! t"
proof (induction xss arbitrary: j)
  case Nil
  then show ?case by simp
next
  case (Cons xs xss)
  show ?case
  proof (cases j)
    case 0
    with Cons.prems show ?thesis by (simp add: nth_append)
  next
    case (Suc k)
    with Cons.prems have "concat xss ! (sum_list (map length (take k xss)) + t) = xss ! k ! t"
      by (intro Cons.IH) simp_all
    with Suc show ?thesis by (simp add: nth_append add.assoc)
  qed
qed

lemma concat_offset_bound:
  "j < length xss \<Longrightarrow>
   sum_list (map length (take j xss)) + length (xss ! j) \<le> length (concat xss)"
proof (induction xss arbitrary: j)
  case Nil
  then show ?case by simp
next
  case (Cons xs xss)
  show ?case
  proof (cases j)
    case 0
    then show ?thesis by simp
  next
    case (Suc k)
    with Cons.prems have "sum_list (map length (take k xss)) + length (xss ! k) \<le> length (concat xss)"
      by (intro Cons.IH) simp
    with Suc show ?thesis by simp
  qed
qed

subsection \<open>\<open>concat\<close> of two or more inputs\<close>

text \<open>With two or more inputs \<open>concat\<close> returns what the specification's contract describes.\<close>

lemma concat_metastr_spec:
  "2 \<le> length args \<Longrightarrow> \<forall>s \<in> set args. str s \<noteq> [] \<Longrightarrow>
   concat_metastr args = Inr (spec_concat args)"
  unfolding spec_concat_def by (rule concat_metastr_eq)

text \<open>
  In the terms of the contract: the declared length is \<open>\<Sum>(length_i - 1) + 1\<close>; the
  first \<open>length_j - 1\<close> code units of input \<open>j\<close> stand at the offset that is the sum of
  the logical lengths of the inputs before it; the last slot is zero. Raw literals are
  first wrapped as metastrings.
\<close>

lemma concat_layout:
  assumes two: "2 \<le> length args" and ne: "\<forall>a \<in> set args. str (wrap_arg a) \<noteq> []"
  shows "\<exists>res. concat_wrap args = Inr res
           \<and> len res = sum_list (map (\<lambda>a. len (wrap_arg a) - 1) args) + 1
           \<and> (\<forall>j < length args. \<forall>t < len (wrap_arg (args ! j)) - 1.
                 str res ! (sum_list (map (\<lambda>a. len (wrap_arg a) - 1) (take j args)) + t)
                   = str (wrap_arg (args ! j)) ! t)
           \<and> str res ! (len res - 1) = 0"
proof -
  let ?ms = "map wrap_arg args"
  let ?cs = "map (\<lambda>s. take (len s - 1) (str s)) ?ms"
  let ?res = "\<lparr>str = concat ?cs @ [0]\<rparr> :: 'a metastr"
  have two': "2 \<le> length ?ms" using two by simp
  have ne': "\<forall>s \<in> set ?ms. str s \<noteq> []" using ne by simp
  have eq: "concat_wrap args = Inr ?res"
    unfolding concat_wrap_def by (rule concat_metastr_eq [OF two' ne'])
  have lens: "map length ?cs = map (\<lambda>a. len (wrap_arg a) - 1) args"
    by (simp add: len_def comp_def)
  have lc: "length (concat ?cs) = sum_list (map (\<lambda>a. len (wrap_arg a) - 1) args)"
    by (simp add: length_concat lens [simplified comp_def] comp_def len_def)
  have l: "len ?res = sum_list (map (\<lambda>a. len (wrap_arg a) - 1) args) + 1"
    using lc by (simp add: len_def)
  have z: "str ?res ! (len ?res - 1) = 0"
    by (simp add: len_def nth_append)
  have n: "str ?res ! (sum_list (map (\<lambda>a. len (wrap_arg a) - 1) (take j args)) + t)
             = str (wrap_arg (args ! j)) ! t"
    if j: "j < length args" and t: "t < len (wrap_arg (args ! j)) - 1" for j t
  proof -
    have jl: "j < length ?cs" using j by simp
    have cj: "?cs ! j = take (len (wrap_arg (args ! j)) - 1) (str (wrap_arg (args ! j)))"
      using j by simp
    have tl: "t < length (?cs ! j)" using t cj by (simp add: len_def)
    have off: "sum_list (map length (take j ?cs))
                 = sum_list (map (\<lambda>a. len (wrap_arg a) - 1) (take j args))"
      by (simp add: take_map comp_def len_def)
    have inb: "sum_list (map length (take j ?cs)) + t < length (concat ?cs)"
      using concat_offset_bound [OF jl] tl by simp
    have "str ?res ! (sum_list (map length (take j ?cs)) + t) = concat ?cs ! (sum_list (map length (take j ?cs)) + t)"
      using inb by (simp add: nth_append)
    also have "\<dots> = ?cs ! j ! t" by (rule nth_concat_offset [OF jl tl])
    also have "\<dots> = str (wrap_arg (args ! j)) ! t" using t cj by simp
    finally show ?thesis unfolding off .
  qed
  show ?thesis
  proof (intro exI conjI allI impI)
    show "concat_wrap args = Inr ?res" by (rule eq)
    show "len ?res = sum_list (map (\<lambda>a. len (wrap_arg a) - 1) args) + 1" by (rule l)
    show "str ?res ! (len ?res - 1) = 0" by (rule z)
    show "str ?res ! (sum_list (map (\<lambda>a. len (wrap_arg a) - 1) (take j args)) + t)
            = str (wrap_arg (args ! j)) ! t"
      if "j < length args" and "t < len (wrap_arg (args ! j)) - 1" for j t
      using that by (rule n)
  qed
qed

lemma concat_layout_example:
  "\<exists>res. concat_wrap [Metastring (metastr_of [0x61, 0x62, 0x63, 0 :: u8]),
                        Literal [0x64, 0x65, 0x66, 0]] = Inr res
     \<and> len res = 7 \<and> str res ! 0 = 0x61 \<and> str res ! 3 = 0x64 \<and> str res ! 5 = 0x66
     \<and> str res ! 6 = 0"
proof -
  let ?args = "[Metastring (metastr_of [0x61, 0x62, 0x63, 0 :: u8]), Literal [0x64, 0x65, 0x66, 0]]"
  have two: "2 \<le> length ?args" by simp
  have ne: "\<forall>a \<in> set ?args. str (wrap_arg a) \<noteq> []"
    by (simp add: metastr_of_def)
  from concat_layout [OF two ne] obtain res where
    r: "concat_wrap ?args = Inr res" and
    l: "len res = sum_list (map (\<lambda>a. len (wrap_arg a) - 1) ?args) + 1" and
    n: "\<And>j t. j < length ?args \<Longrightarrow> t < len (wrap_arg (?args ! j)) - 1 \<Longrightarrow>
          str res ! (sum_list (map (\<lambda>a. len (wrap_arg a) - 1) (take j ?args)) + t)
            = str (wrap_arg (?args ! j)) ! t" and
    z: "str res ! (len res - 1) = 0"
    by blast
  have l7: "len res = 7" using l by (simp add: len_def metastr_of_def)
  have "str res ! 0 = 0x61" using n [of 0 0] by (simp add: len_def metastr_of_def)
  moreover have "str res ! 3 = 0x64" using n [of 1 0] by (simp add: len_def metastr_of_def eval_nat_numeral)
  moreover have "str res ! 5 = 0x66" using n [of 1 2] by (simp add: len_def metastr_of_def eval_nat_numeral)
  moreover have "str res ! 6 = 0" using z l7 by simp
  ultimately show ?thesis using r l7 by blast
qed

subsection \<open>The emission rule against the specification's\<close>

text \<open>Below \<open>0x10000\<close> the code writes what the specification's rule writes.\<close>

lemma ucast_or_u8: "(ucast ((x :: u32) OR y) :: u8) = ucast x OR ucast y"
  by (simp add: bit_eq_iff bit_simps)

lemma utf8_units_below_0x10000:
  "c < 0x10000 \<Longrightarrow> utf8_units c = spec_utf8_units c"
  by (simp add: utf8_units_def spec_utf8_units_def ucast_or_u8)

text \<open>
  The third code unit of every four-unit sequence is below \<open>0x40\<close>, so it is never a
  continuation code unit.
\<close>

lemma four_unit_sequence_third_unit:
  "0x10000 \<le> c \<Longrightarrow> utf8_units c ! 2 \<le> 0x3f \<and> length (utf8_units c) = 4"
proof -
  assume c: "0x10000 \<le> c"
  have "(0x800::u32) \<le> c" using c by (rule order_trans [rotated]) simp
  moreover have "(0x80::u32) \<le> c" using c by (rule order_trans [rotated]) simp
  ultimately have "length (utf8_units c) = 4"
    using c by (simp add: utf8_units_def not_less [symmetric] del: not_less)
  with utf8_units_third_unit [OF c] show ?thesis by simp
qed

subsection \<open>What \<open>operator==\<close> computes\<close>

lemma eq_array_rule:
  "2 \<le> len this \<Longrightarrow> len this \<le> length other \<Longrightarrow>
   eq_array this other =
     Inr (units_equal (str this) other (len this - 2)
          \<and> units_zero other (len this - 1) (length other))"
  by (simp add: eq_array_def Let_def)

section \<open>The header's own tests, on the model\<close>

text \<open>
  \<open>test_metastr_eq\<close>: \<open>"abc"\<close> against \<open>"abc\0\0"\<close>, \<open>"abcd"\<close> and \<open>"ab"\<close>.
\<close>

lemma eq_examples:
  "eq_metastr (metastr_of [0x61, 0x62, 0x63, 0 :: u8]) (metastr_of [0x61, 0x62, 0x63, 0, 0, 0 :: u8]) = Inr True"
  "eq_metastr (metastr_of [0x61, 0x62, 0x63, 0 :: u8]) (metastr_of [0x61, 0x62, 0x63, 0x64, 0 :: u8]) = Inr False"
  "eq_metastr (metastr_of [0x61, 0x62, 0x63, 0 :: u8]) (metastr_of [0x61, 0x62, 0 :: u8]) = Inr False"
  by code_simp+

text \<open>
  \<open>test_metastr_eq\<close>, last line: the UTF-16 literal of two CJK characters against
  the UTF-8 metastring of the same two characters.
\<close>

lemma eq_utf16_utf8_test:
  "eq_array (metastr_of [0xE6, 0xBB, 0x91, 0xE7, 0xA8, 0xBD, 0 :: u8]) [0x6ED1, 0x7A3D, 0 :: u16] = Inr False"
  by code_simp

text \<open>
  A metastring with a single slot (the empty literal) has no valid range
  \<open>str, str + N - 2\<close>.
\<close>

lemma eq_single_slot:
  "eq_metastr (metastr_of [0 :: u8]) (metastr_of [0x61, 0 :: u8]) = Inl PointerOutOfRange"
  by code_simp

text \<open>
  \<open>test_concat\<close> and \<open>test_code_cvt\<close>: \<open>"abc"\<close> and \<open>"def"\<close> concatenated; two CJK
  characters from UTF-32 and from UTF-16 to UTF-8, and the result compared with the
  UTF-8 literal.
\<close>

lemma concat_test:
  "concat_metastr [metastr_of [0x61, 0x62, 0x63, 0 :: u8], metastr_of [0x64, 0x65, 0x66, 0]]
     = Inr (metastr_of [0x61, 0x62, 0x63, 0x64, 0x65, 0x66, 0])"
  by code_simp

lemma code_cvt_test:
  "code_cvt_32to8 True (metastr_of [0x6d4b, 0x901d, 0])
     = Inr \<lparr>str = [0xE6, 0xB5, 0x8B, 0xE9, 0x80, 0x9D, 0, 0, 0]\<rparr>"
  "code_cvt_16to8 True (metastr_of [0x6d4b, 0x901d, 0])
     = Inr \<lparr>str = [0xE6, 0xB5, 0x8B, 0xE9, 0x80, 0x9D, 0, 0, 0]\<rparr>"
  "eq_array \<lparr>str = [0xE6, 0xB5, 0x8B, 0xE9, 0x80, 0x9D, 0, 0, 0 :: u8]\<rparr>
     [0xE6, 0xB5, 0x8B, 0xE9, 0x80, 0x9D, 0 :: u8] = Inr True"
  by code_simp+

text \<open>
  The unchecked build reads past the input when a lead surrogate fills the last slot.
\<close>

lemma utf16to8_unchecked_lead_at_end:
  "utf16to8 False \<lparr>str = [0xD83D]\<rparr> = Inl ReadOutOfBounds"
  by code_simp

section \<open>The claims\<close>

text \<open>
  Claim C1. Two metastrings compare equal exactly when the shorter one's first
  \<open>length - 1\<close> code units equal the longer one's and the longer one is zero beyond
  them. The code compares only the first \<open>length - 2\<close> code units (\<open>str + N - 2\<close>) and
  starts the zero check at \<open>length - 1\<close>, so the last content code unit of the shorter
  side is never examined: \<open>"abc"\<close> and \<open>"abd"\<close> compare equal, as metastrings, against
  the raw literal and against the string view, where the stated rule says unequal.
\<close>

theorem eq_last_content_unit_ignored:
  "eq_metastr (metastr_of [0x61, 0x62, 0x63, 0 :: u8]) (metastr_of [0x61, 0x62, 0x64, 0 :: u8]) = Inr True
   \<and> eq_array (metastr_of [0x61, 0x62, 0x63, 0 :: u8]) [0x61, 0x62, 0x64, 0 :: u8] = Inr True
   \<and> eq_string_view (metastr_of [0x61, 0x62, 0x63, 0 :: u8]) [0x61, 0x62, 0x64 :: u8] = Inr True
   \<and> \<not> spec_equal [0x61, 0x62, 0x63, 0 :: u8] [0x61, 0x62, 0x64, 0 :: u8]"
  by code_simp

text \<open>
  Claim C2. Every scalar is written as 1, 2, 3 or 4 code units in standard UTF-8, each
  continuation code unit being \<open>0x80\<close> with six payload bits. In the four-unit branch
  the third assignment has no \<open>| 0x80\<close>: U+1F600 comes out as \<open>F0 9F 18 80\<close>, where the
  stated rule gives \<open>F0 9F 98 80\<close>.
\<close>

theorem utf32to8_four_unit_sequence:
  "utf32to8 True (metastr_of [0x1F600, 0]) = Inr \<lparr>str = [0xF0, 0x9F, 0x18, 0x80, 0]\<rparr>
   \<and> utf8_units 0x1F600 = [0xF0, 0x9F, 0x18, 0x80]
   \<and> spec_utf8_units 0x1F600 = [0xF0, 0x9F, 0x98, 0x80]"
  by code_simp

text \<open>
  Claim C3. A lead and a trail surrogate are combined by
  \<open>(lead << 10) + trail + offset\<close> and the scalar is written as its four-unit UTF-8
  sequence. For the pair \<open>D83D DE00\<close> the scalar is U+1F600 as stated, and the code units
  written are \<open>F0 9F 18 80\<close>, not the UTF-8 sequence \<open>F0 9F 98 80\<close> of that scalar.
\<close>

theorem utf16to8_surrogate_pair:
  "push_bit 10 0xD83D + 0xDE00 + SURROGATE_OFFSET = (0x1F600 :: u32)
   \<and> utf16to8 True (metastr_of [0xD83D, 0xDE00, 0])
       = Inr \<lparr>str = [0xF0, 0x9F, 0x18, 0x80, 0, 0, 0, 0, 0]\<rparr>
   \<and> spec_utf8_units 0x1F600 = [0xF0, 0x9F, 0x98, 0x80]"
  by code_simp

text \<open>
  Claim C4. In the checked build, converting a UTF-32 metastring that holds a code unit
  in \<open>0xD800..0xDFFF\<close> or above \<open>0x10FFFF\<close> ends in \<open>terminate()\<close>: no metastring,
  error value or partial result is returned.
\<close>

theorem utf32to8_rejects_invalid_scalar:
  assumes "\<exists>c \<in> set (str u32str). (0xD800 \<le> c \<and> c \<le> 0xDFFF) \<or> 0x10FFFF < c"
  shows "code_cvt_32to8 True u32str = Inl Terminated"
proof -
  from assms have bad: "\<exists>c \<in> set (str u32str).
      CODE_POINT_MAX < c \<or> LEAD_SURROGATE_MIN \<le> c \<and> c \<le> TRAIL_SURROGATE_MAX"
    by (auto simp: transcoding_consts)
  then have "str u32str \<noteq> []" by auto
  then have pre: "0 + 4 * length (str u32str) \<le> length (replicate (len u32str * 4 - 3) (0::u8)) + 4"
    by (cases "str u32str") (simp_all add: len_def)
  from utf32_loop_rejects [OF bad pre] show ?thesis
    by (simp add: code_cvt_32to8_def utf32to8_def utf32_run_def)
qed

theorem utf32to8_rejects_invalid_scalar_witness:
  "code_cvt_32to8 True (metastr_of [0x41, 0xD800, 0]) = Inl Terminated
   \<and> code_cvt_32to8 True (metastr_of [0x110000, 0]) = Inl Terminated"
proof -
  have a: "\<exists>c \<in> set (str (metastr_of [0x41, 0xD800, 0 :: u32])). (0xD800 \<le> c \<and> c \<le> 0xDFFF) \<or> 0x10FFFF < c"
    by (simp add: metastr_of_def)
  have b: "\<exists>c \<in> set (str (metastr_of [0x110000, 0 :: u32])). (0xD800 \<le> c \<and> c \<le> 0xDFFF) \<or> 0x10FFFF < c"
    by (simp add: metastr_of_def)
  show ?thesis
    using utf32to8_rejects_invalid_scalar [OF a] utf32to8_rejects_invalid_scalar [OF b] by simp
qed

text \<open>
  Claim C5. \<open>concat\<close> applied to one or more metastrings (or raw literals, first
  wrapped) returns the metastring of declared length \<open>\<Sum>(length_i - 1) + 1\<close> that holds
  each input's content at its prefix-sum offset, with a zero terminator slot. The
  signature and the \<open>requires\<close> clause accept a single argument, and \<open>lens\<close>,
  \<open>sizeof...(Strs)\<close> and the comma fold handle the empty pack, but the array bound
  \<open>Str1::len + (Strs::len + ...) - sizeof...(Strs)\<close> folds the empty pack with \<open>+\<close>: for
  the single input \<open>"abc"\<close> no metastring results, where the contract gives \<open>"abc"\<close>
  with declared length 4.
\<close>

theorem concat_single_argument_ill_formed:
  "concat_metastr [metastr_of [0x61, 0x62, 0x63, 0 :: u8]] = Inl IllFormed
   \<and> concat_wrap [Literal [0x61, 0x62, 0x63, 0 :: u8]] = Inl IllFormed
   \<and> spec_concat [metastr_of [0x61, 0x62, 0x63, 0 :: u8]] = \<lparr>str = [0x61, 0x62, 0x63, 0]\<rparr>
   \<and> len (spec_concat [metastr_of [0x61, 0x62, 0x63, 0 :: u8]]) = 4"
  by code_simp

text \<open>
  Claim C6. For metastrings \<open>a\<close>, \<open>b\<close>, \<open>c\<close> of one character class,
  \<open>concat(a, b, c)\<close> and \<open>concat(concat(a, b), c)\<close> hold the same code units, and
  \<open>length(concat(a, b)) - 1 = (length(a) - 1) + (length(b) - 1)\<close>.
\<close>

theorem concat_associative_additive:
  assumes "str a \<noteq> []" and "str b \<noteq> []" and "str c \<noteq> []"
  shows "\<exists>ab abc ab_c. concat_metastr [a, b] = Inr ab
           \<and> concat_metastr [a, b, c] = Inr abc
           \<and> concat_metastr [ab, c] = Inr ab_c
           \<and> str abc = str ab_c
           \<and> len ab - 1 = (len a - 1) + (len b - 1)"
proof -
  let ?k = "\<lambda>s :: 'a metastr. take (len s - 1) (str s)"
  let ?ab = "\<lparr>str = ?k a @ ?k b @ [0]\<rparr> :: 'a metastr"
  let ?abc = "\<lparr>str = ?k a @ ?k b @ ?k c @ [0]\<rparr> :: 'a metastr"
  have ab: "concat_metastr [a, b] = Inr ?ab"
    using concat_metastr_eq [of "[a, b]"] assms by simp
  have abc: "concat_metastr [a, b, c] = Inr ?abc"
    using concat_metastr_eq [of "[a, b, c]"] assms by simp
  have kab: "?k ?ab = ?k a @ ?k b"
    by (simp add: len_def)
  have ab_c: "concat_metastr [?ab, c] = Inr ?abc"
    using concat_metastr_eq [of "[?ab, c]"] assms kab by simp
  have l: "len ?ab - 1 = (len a - 1) + (len b - 1)"
    by (simp add: len_def)
  show ?thesis using ab abc ab_c l by blast
qed

theorem concat_associative_additive_witness:
  "\<exists>ab abc. concat_metastr [metastr_of [0x61, 0x62, 0 :: u8], metastr_of [0x63, 0]] = Inr ab
     \<and> concat_metastr [metastr_of [0x61, 0x62, 0], metastr_of [0x63, 0], metastr_of [0x64, 0x65, 0]]
           = Inr abc
     \<and> concat_metastr [ab, metastr_of [0x64, 0x65, 0]] = Inr abc
     \<and> len ab - 1 = 2 + 1"
proof -
  let ?a = "metastr_of [0x61, 0x62, 0 :: u8]"
  let ?b = "metastr_of [0x63, 0 :: u8]"
  let ?c = "metastr_of [0x64, 0x65, 0 :: u8]"
  have a: "str ?a \<noteq> []" and b: "str ?b \<noteq> []" and c: "str ?c \<noteq> []"
    by (simp_all add: metastr_of_def)
  from concat_associative_additive [OF a b c] obtain ab abc ab_c where
    "concat_metastr [?a, ?b] = Inr ab" "concat_metastr [?a, ?b, ?c] = Inr abc"
    "concat_metastr [ab, ?c] = Inr ab_c" "str abc = str ab_c"
    "len ab - 1 = (len ?a - 1) + (len ?b - 1)"
    by blast
  moreover from this have "abc = ab_c" by simp
  moreover have "len ?a - 1 = 2" "len ?b - 1 = 1" by (simp_all add: len_def metastr_of_def)
  ultimately show ?thesis by auto
qed

text \<open>
  Claim C7. Equality across character widths compares code units as numbers, so a
  UTF-16 and a UTF-8 metastring of the same non-ASCII text compare unequal. Because the
  last content code unit of the shorter side is skipped, the UTF-16 literal
  \<open>u"\u00C3\0"\<close> and the UTF-8 literal \<open>u8"\u00C3\0"\<close> (the latter is what \<open>utf16to8\<close>
  makes of the former, up to padding) compare equal.
\<close>

theorem eq_utf16_utf8_same_text:
  "eq_metastr (metastr_of [0xC3, 0, 0 :: u16]) (metastr_of [0xC3, 0x83, 0, 0 :: u8]) = Inr True
   \<and> utf16to8 True (metastr_of [0xC3, 0, 0]) = Inr \<lparr>str = [0xC3, 0x83, 0, 0, 0, 0, 0, 0, 0]\<rparr>
   \<and> \<not> spec_equal [0xC3, 0, 0 :: u16] [0xC3, 0x83, 0, 0 :: u8]"
  by code_simp

text \<open>
  Claim C8. A conversion from UTF-32 or UTF-16 to UTF-8 of a metastring of declared
  length \<open>N\<close> that returns, returns a metastring of declared length \<open>4 * N - 3\<close>, whatever
  the content, and it fails to return only by \<open>terminate()\<close> in the checked build; a
  same-family conversion keeps the length and copies the code units one for one.
\<close>

theorem code_cvt_capacity:
  assumes "wf_metastr s32" and "wf_metastr s16" and "wf_metastr s"
  shows "(case code_cvt_32to8 chk s32 of
            Inl e \<Rightarrow> chk \<and> e = Terminated | Inr r \<Rightarrow> len r = 4 * len s32 - 3)
       \<and> (case code_cvt_16to8 chk s16 of
            Inl e \<Rightarrow> chk \<and> e = Terminated | Inr r \<Rightarrow> len r = 4 * len s16 - 3)
       \<and> len (code_cvt_same s) = len s \<and> str (code_cvt_same s) = str s"
proof -
  have a: "case code_cvt_32to8 chk s32 of
            Inl e \<Rightarrow> chk \<and> e = Terminated | Inr r \<Rightarrow> len r = 4 * len s32 - 3"
    using utf32_run_bound [OF assms(1), of chk]
    by (auto simp: code_cvt_32to8_def utf32to8_def len_def split: sum.splits)
  have b: "case code_cvt_16to8 chk s16 of
            Inl e \<Rightarrow> chk \<and> e = Terminated | Inr r \<Rightarrow> len r = 4 * len s16 - 3"
    using utf16_run_bound [OF assms(2), of chk]
    by (auto simp: code_cvt_16to8_def utf16to8_def len_def split: sum.splits)
  have c: "str (code_cvt_same s) = str s"
    by (rule code_cvt_same_wf [OF assms(3)])
  then have "len (code_cvt_same s) = len s" by (simp add: len_def)
  with a b c show ?thesis by simp
qed

theorem code_cvt_capacity_witness:
  "(\<exists>r. code_cvt_32to8 True (metastr_of [0x6d4b, 0x901d, 0]) = Inr r \<and> len r = 9)
   \<and> (\<exists>r. code_cvt_16to8 True (metastr_of [0x6d4b, 0x901d, 0]) = Inr r \<and> len r = 9)
   \<and> len (code_cvt_same (metastr_of [0x61, 0x62, 0x63, 0 :: u8])) = 4
   \<and> str (code_cvt_same (metastr_of [0x61, 0x62, 0x63, 0 :: u8])) = [0x61, 0x62, 0x63, 0]"
proof -
  let ?m32 = "metastr_of [0x6d4b, 0x901d, 0 :: u32]"
  let ?m16 = "metastr_of [0x6d4b, 0x901d, 0 :: u16]"
  let ?m8 = "metastr_of [0x61, 0x62, 0x63, 0 :: u8]"
  have w: "wf_metastr ?m32" "wf_metastr ?m16" "wf_metastr ?m8"
    by (simp_all add: wf_metastr_of)
  have l: "len ?m32 = 3" "len ?m16 = 3" "len ?m8 = 4" "str ?m8 = [0x61, 0x62, 0x63, 0]"
    by (simp_all add: len_def metastr_of_def)
  show ?thesis
    using code_cvt_capacity [OF w, of True] l
    by (auto split: sum.splits simp: code_cvt_test)
qed

text \<open>
  Claim C9, as amended. In the checked build the UTF-16 decoder never reads past the
  end of the input: before the read of the trail code unit it checks \<open>i >= N\<close>, and an
  input whose last code unit is a lead surrogate ends in \<open>terminate()\<close>.
\<close>

theorem utf16to8_checked_lead_at_end:
  "utf16to8 True u16str \<noteq> Inl ReadOutOfBounds
   \<and> (str u16str \<noteq> [] \<and> 0xD800 \<le> (ucast (last (str u16str)) :: u32)
        \<and> (ucast (last (str u16str)) :: u32) \<le> 0xDBFF
      \<longrightarrow> utf16to8 True u16str = Inl Terminated)"
proof (intro conjI impI)
  show "utf16to8 True u16str \<noteq> Inl ReadOutOfBounds" by (rule utf16to8_checked_reads)
next
  assume a: "str u16str \<noteq> [] \<and> 0xD800 \<le> (ucast (last (str u16str)) :: u32)
        \<and> (ucast (last (str u16str)) :: u32) \<le> 0xDBFF"
  then have ne: "str u16str \<noteq> []" by simp
  from a have lead: "LEAD_SURROGATE_MIN \<le> ucast (last (str u16str))
      \<and> (ucast (last (str u16str)) :: u32) \<le> LEAD_SURROGATE_MAX"
    by (simp add: transcoding_consts)
  have pre: "0 + 4 * length (str u16str) \<le> length (replicate (4 * len u16str - 3) (0::u8)) + 4"
    using ne by (cases "str u16str") (simp_all add: len_def)
  from utf16_loop_lead_last [OF ne lead pre] show "utf16to8 True u16str = Inl Terminated"
    by (simp add: utf16to8_def utf16_run_def)
qed

theorem utf16to8_checked_lead_at_end_witness:
  "utf16to8 True \<lparr>str = [0x41, 0xD83D]\<rparr> = Inl Terminated
   \<and> utf16to8 True (metastr_of [0x41, 0xD83D, 0]) = Inl Terminated"
proof -
  have "utf16to8 True \<lparr>str = [0x41, 0xD83D]\<rparr> = Inl Terminated"
    using utf16to8_checked_lead_at_end [of "\<lparr>str = [0x41, 0xD83D]\<rparr>"] by simp
  moreover have "utf16to8 True (metastr_of [0x41, 0xD83D, 0]) = Inl Terminated"
    by code_simp
  ultimately show ?thesis by simp
qed

text \<open>
  Claim C9 as stated says that some checked-mode input with a lead surrogate in the last
  position is read out of bounds. No input is.
\<close>

theorem utf16to8_checked_read_counterexample:
  "utf16to8 True \<lparr>str = [0xD83D]\<rparr> = Inl Terminated
   \<and> \<not> (\<exists>u16str. utf16to8 True u16str = Inl ReadOutOfBounds)"
proof -
  have "utf16to8 True \<lparr>str = [0xD83D]\<rparr> = Inl Terminated" by code_simp
  then show ?thesis using utf16to8_checked_reads by simp
qed

text \<open>
  Claim C10. For a metastring of declared length \<open>N\<close> (terminator slot zero) neither
  transcoder writes outside the \<open>4 * N - 3\<close> code units of its result: the loop ends with
  \<open>index \<le> 4 * N - 3\<close>, so the last write is at most at \<open>4 * N - 4\<close>, and the terminator
  slot is written as the single code unit zero.
\<close>

theorem transcoders_write_in_bounds:
  assumes "wf_metastr s32" and "wf_metastr s16"
  shows "(case utf32_run chk s32 of
            Inl e \<Rightarrow> chk \<and> e = Terminated
          | Inr (buf, index) \<Rightarrow> length buf = 4 * len s32 - 3 \<and> index \<le> 4 * len s32 - 3)
       \<and> (case utf16_run chk s16 of
            Inl e \<Rightarrow> chk \<and> e = Terminated
          | Inr (buf, index) \<Rightarrow> length buf = 4 * len s16 - 3 \<and> index \<le> 4 * len s16 - 3)
       \<and> utf32to8 chk s32 \<noteq> Inl WriteOutOfBounds
       \<and> utf16to8 chk s16 \<noteq> Inl WriteOutOfBounds
       \<and> utf8_units 0 = [0]"
proof -
  note a = utf32_run_bound [OF assms(1), of chk]
  note b = utf16_run_bound [OF assms(2), of chk]
  have "utf32to8 chk s32 \<noteq> Inl WriteOutOfBounds"
    using a by (auto simp: utf32to8_def split: sum.splits)
  moreover have "utf16to8 chk s16 \<noteq> Inl WriteOutOfBounds"
    using b by (auto simp: utf16to8_def split: sum.splits)
  ultimately show ?thesis using a b utf8_units_zero by simp
qed

theorem transcoders_write_in_bounds_witness:
  "utf32_run True (metastr_of [0x1F600, 0x1F600, 0])
      = Inr ([0xF0, 0x9F, 0x18, 0x80, 0xF0, 0x9F, 0x18, 0x80, 0], 9)
   \<and> utf16to8 False (metastr_of [0xD83D, 0]) \<noteq> Inl WriteOutOfBounds"
proof -
  have w: "wf_metastr (metastr_of [0x1F600, 0x1F600, 0 :: u32])" "wf_metastr (metastr_of [0xD83D, 0 :: u16])"
    by (simp_all add: wf_metastr_of)
  have "utf32_run True (metastr_of [0x1F600, 0x1F600, 0])
      = Inr ([0xF0, 0x9F, 0x18, 0x80, 0xF0, 0x9F, 0x18, 0x80, 0], 9)"
    by code_simp
  then show ?thesis
    using transcoders_write_in_bounds [OF w, of False] by simp
qed

end
